theory Spec2Isabelle
  imports Main "HOL-Library.AList"
begin

section \<open>Frame Ordinal Allocator\<close>

text \<open>
  \<^verbatim>\<open>fidOrdinals\<close> is a JavaScript \<^verbatim>\<open>Map<string | undefined, number>\<close>. A JavaScript
  map keeps its entries in insertion order and holds every key once, so it is an
  association list with distinct keys: \<^verbatim>\<open>get\<close> is \<open>map_of\<close>, \<^verbatim>\<open>set\<close> is
  \<open>AList.update\<close> (a new key is appended, a present key keeps its place) and \<^verbatim>\<open>size\<close>
  is the length. The key \<^verbatim>\<open>undefined\<close> is \<open>None\<close>.
\<close>

type_synonym fid_ordinals = "(string option \<times> nat) list"

definition initial_fidOrdinals :: fid_ordinals where
  "initial_fidOrdinals = [(None, 0)]"

definition ordinalForFrameId :: "string option \<Rightarrow> fid_ordinals \<Rightarrow> nat \<times> fid_ordinals" where
  "ordinalForFrameId fid m =
     (case fid of
        None \<Rightarrow> (0, m)
      | Some f \<Rightarrow>
          (case map_of m (Some f) of
             Some cached \<Rightarrow> (cached, m)
           | None \<Rightarrow> (let next = length m in (next, AList.update (Some f) next m))))"

definition resetFrameOrdinals :: "fid_ordinals \<Rightarrow> fid_ordinals" where
  "resetFrameOrdinals m = [(None, 0)]"

text \<open>A run of calls of \<^verbatim>\<open>ordinalForFrameId\<close>, keeping only the final map.\<close>

fun ordinal_calls :: "string option list \<Rightarrow> fid_ordinals \<Rightarrow> fid_ordinals" where
  "ordinal_calls [] m = m"
| "ordinal_calls (fid # fids) m = ordinal_calls fids (snd (ordinalForFrameId fid m))"

text \<open>The maps a page can hold: the initial one, and what the two operations make of it.\<close>

inductive reachable_ordinals :: "fid_ordinals \<Rightarrow> bool" where
  ro_init: "reachable_ordinals initial_fidOrdinals"
| ro_call: "reachable_ordinals m \<Longrightarrow> reachable_ordinals (snd (ordinalForFrameId fid m))"
| ro_reset: "reachable_ordinals m \<Longrightarrow> reachable_ordinals (resetFrameOrdinals m)"

text \<open>The shape of every reachable map: entry number \<open>i\<close> holds ordinal \<open>i\<close>.\<close>

definition ordinals_inv :: "fid_ordinals \<Rightarrow> bool" where
  "ordinals_inv m \<longleftrightarrow> m \<noteq> [] \<and> distinct (map fst m) \<and> map snd m = [0..<length m]"

lemma update_absent: "map_of m k = None \<Longrightarrow> AList.update k v m = m @ [(k, v)]"
  by (induction m) (auto split: if_splits)

lemma ordinals_inv_initial: "ordinals_inv initial_fidOrdinals"
  by (simp add: ordinals_inv_def initial_fidOrdinals_def)

lemma ordinals_inv_reset: "ordinals_inv (resetFrameOrdinals m)"
  by (simp add: ordinals_inv_def resetFrameOrdinals_def)

lemma ordinals_inv_call:
  assumes "ordinals_inv m"
  shows "ordinals_inv (snd (ordinalForFrameId fid m))"
proof (cases fid)
  case None
  then show ?thesis using assms by (simp add: ordinalForFrameId_def)
next
  case (Some f)
  show ?thesis
  proof (cases "map_of m (Some f)")
    case None
    then have "Some f \<notin> fst ` set m" by (simp add: map_of_eq_None_iff)
    with None Some assms show ?thesis
      by (simp add: ordinalForFrameId_def update_absent ordinals_inv_def Let_def)
  next
    case (Some c)
    with \<open>fid = Some f\<close> assms show ?thesis by (simp add: ordinalForFrameId_def)
  qed
qed

lemma reachable_ordinals_inv: "reachable_ordinals m \<Longrightarrow> ordinals_inv m"
  by (induction rule: reachable_ordinals.induct)
     (simp_all add: ordinals_inv_initial ordinals_inv_reset ordinals_inv_call)

lemma ordinals_inv_bound:
  assumes "ordinals_inv m" "map_of m k = Some v"
  shows "v < length m"
proof -
  from assms(2) have "(k, v) \<in> set m" by (rule map_of_SomeD)
  then have "v \<in> set (map snd m)" by force
  with assms(1) show ?thesis by (simp add: ordinals_inv_def)
qed

text \<open>A call never changes an entry that is already there, and never shrinks the map.\<close>

lemma call_keeps_entry:
  "map_of m k = Some v \<Longrightarrow> map_of (snd (ordinalForFrameId fid m)) k = Some v"
  by (auto simp: ordinalForFrameId_def update_conv' Let_def split: option.splits)

lemma call_length: "length m \<le> length (snd (ordinalForFrameId fid m))"
  by (auto simp: ordinalForFrameId_def update_absent Let_def split: option.splits)

lemma calls_keep_entry:
  "map_of m k = Some v \<Longrightarrow> map_of (ordinal_calls fids m) k = Some v"
  by (induction fids arbitrary: m) (simp_all add: call_keeps_entry)

lemma calls_length: "length m \<le> length (ordinal_calls fids m)"
proof (induction fids arbitrary: m)
  case Nil
  show ?case by simp
next
  case (Cons fid fids)
  have "length m \<le> length (snd (ordinalForFrameId fid m))" by (rule call_length)
  also have "\<dots> \<le> length (ordinal_calls fids (snd (ordinalForFrameId fid m)))" by (rule Cons.IH)
  finally show ?case by simp
qed

lemma calls_inv: "ordinals_inv m \<Longrightarrow> ordinals_inv (ordinal_calls fids m)"
  by (induction fids arbitrary: m) (simp_all add: ordinals_inv_call)

lemma call_records:
  "map_of (snd (ordinalForFrameId (Some f) m)) (Some f) = Some (fst (ordinalForFrameId (Some f) m))"
  by (auto simp: ordinalForFrameId_def update_conv' Let_def split: option.splits)

lemma call_cached:
  "map_of m (Some f) = Some v \<Longrightarrow> ordinalForFrameId (Some f) m = (v, m)"
  by (simp add: ordinalForFrameId_def)

lemma call_new:
  "map_of m (Some f) = None \<Longrightarrow> fst (ordinalForFrameId (Some f) m) = length m"
  by (simp add: ordinalForFrameId_def Let_def)

text \<open>
  Claim C2. In every reachable map: the undefined frame id has ordinal 0 (and the call
  changes nothing); a defined frame id keeps its ordinal over any later calls; an
  identifier that is new when it is first asked for gets an ordinal strictly above every
  ordinal assigned so far, so of two identifiers that are new at their first calls the
  later one gets the strictly larger ordinal; and after \<^verbatim>\<open>resetFrameOrdinals\<close> the
  first defined frame id asked for, assigned before or not, gets ordinal 1.
\<close>

theorem frame_ordinal_allocator:
  assumes "reachable_ordinals m"
  shows "ordinalForFrameId None m = (0, m)
    \<and> fst (ordinalForFrameId (Some f) (ordinal_calls fids (snd (ordinalForFrameId (Some f) m))))
        = fst (ordinalForFrameId (Some f) m)
    \<and> (map_of m (Some f) = None \<longrightarrow>
         (\<forall>k v. map_of m k = Some v \<longrightarrow> v < fst (ordinalForFrameId (Some f) m)))
    \<and> (map_of m (Some f) = None \<and> f \<noteq> g
          \<and> map_of (ordinal_calls fids (snd (ordinalForFrameId (Some f) m))) (Some g) = None
        \<longrightarrow> fst (ordinalForFrameId (Some f) m)
            < fst (ordinalForFrameId (Some g) (ordinal_calls fids (snd (ordinalForFrameId (Some f) m)))))
    \<and> fst (ordinalForFrameId (Some f) (resetFrameOrdinals m)) = 1"
proof -
  let ?m1 = "snd (ordinalForFrameId (Some f) m)"
  let ?m2 = "ordinal_calls fids ?m1"
  have inv: "ordinals_inv m" using assms by (rule reachable_ordinals_inv)
  have p1: "ordinalForFrameId None m = (0, m)" by (simp add: ordinalForFrameId_def)
  have "map_of ?m2 (Some f) = Some (fst (ordinalForFrameId (Some f) m))"
    by (rule calls_keep_entry) (rule call_records)
  then have p2: "fst (ordinalForFrameId (Some f) ?m2) = fst (ordinalForFrameId (Some f) m)"
    by (simp add: call_cached)
  have p3: "v < fst (ordinalForFrameId (Some f) m)"
    if "map_of m (Some f) = None" and "map_of m k = Some v" for k v
    using that inv by (simp add: call_new ordinals_inv_bound)
  have p4: "fst (ordinalForFrameId (Some f) m) < fst (ordinalForFrameId (Some g) ?m2)"
    if new: "map_of m (Some f) = None" and "f \<noteq> g" and newg: "map_of ?m2 (Some g) = None"
  proof -
    have "map_of ?m2 (Some f) = Some (fst (ordinalForFrameId (Some f) m))"
      by (rule calls_keep_entry) (rule call_records)
    moreover have "ordinals_inv ?m2" using inv by (simp add: calls_inv ordinals_inv_call)
    ultimately have "fst (ordinalForFrameId (Some f) m) < length ?m2"
      by (rule ordinals_inv_bound [rotated])
    then show ?thesis using newg by (simp add: call_new)
  qed
  have p5: "fst (ordinalForFrameId (Some f) (resetFrameOrdinals m)) = 1"
    by (simp add: ordinalForFrameId_def resetFrameOrdinals_def)
  from p1 p2 p3 p4 p5 show ?thesis by blast
qed

theorem frame_ordinal_allocator_witness:
  "reachable_ordinals (snd (ordinalForFrameId (Some ''A'') initial_fidOrdinals))
   \<and> snd (ordinalForFrameId (Some ''A'') initial_fidOrdinals) = [(None, 0), (Some ''A'', 1)]
   \<and> ordinalForFrameId None [(None, 0), (Some ''A'', 1)] = (0, [(None, 0), (Some ''A'', 1)])
   \<and> fst (ordinalForFrameId (Some ''B'') [(None, 0), (Some ''A'', 1)]) = 2
   \<and> fst (ordinalForFrameId (Some ''B'')
        (ordinal_calls [Some ''A'', None] (snd (ordinalForFrameId (Some ''B'') [(None, 0), (Some ''A'', 1)])))) = 2
   \<and> fst (ordinalForFrameId (Some ''C'')
        (ordinal_calls [Some ''A'', None] (snd (ordinalForFrameId (Some ''B'') [(None, 0), (Some ''A'', 1)])))) = 3
   \<and> fst (ordinalForFrameId (Some ''B'') (resetFrameOrdinals [(None, 0), (Some ''A'', 1)])) = 1"
proof -
  let ?m = "snd (ordinalForFrameId (Some ''A'') initial_fidOrdinals)"
  have r: "reachable_ordinals ?m" by (intro ro_call ro_init)
  have m: "?m = [(None, 0), (Some ''A'', 1)]"
    by (simp add: ordinalForFrameId_def initial_fidOrdinals_def)
  from r m frame_ordinal_allocator [OF r, of "''B''" "[Some ''A'', None]" "''C''"]
  show ?thesis
    by (simp add: ordinalForFrameId_def resetFrameOrdinals_def)
qed

section \<open>Selector engine registration\<close>

text \<open>
  \<^verbatim>\<open>stagehandSelectorRegistered\<close> is a module-level flag, one per process. The host's
  \<^verbatim>\<open>selectors.register\<close> belongs to the browser-control library: it is a parameter, a
  function on the host's state that may reject (\<open>Some\<close> of the message). The field
  \<open>register_calls\<close> is a ghost counter of the calls made to it. The flag is set before
  the first suspension point of the function, so an invocation is one atomic step.
\<close>

type_synonym 'h register = "string \<Rightarrow> 'h \<Rightarrow> string option \<times> 'h"

record 'h process =
  stagehandSelectorRegistered :: bool
  selectors :: 'h
  register_calls :: nat

definition initial_process :: "'h \<Rightarrow> 'h process" where
  "initial_process h = \<lparr>stagehandSelectorRegistered = False, selectors = h, register_calls = 0\<rparr>"

definition ensureStagehandSelectorEngine ::
  "'h register \<Rightarrow> 'h process \<Rightarrow> (string + unit) \<times> 'h process" where
  "ensureStagehandSelectorEngine register s =
     (if stagehandSelectorRegistered s then (Inr (), s)
      else
        let s1 = s\<lparr>stagehandSelectorRegistered := True\<rparr>;
            (rejected, h) = register ''stagehand'' (selectors s1);
            s2 = s1\<lparr>selectors := h, register_calls := Suc (register_calls s1)\<rparr>
        in (case rejected of None \<Rightarrow> (Inr (), s2) | Some e \<Rightarrow> (Inl e, s2)))"

fun invocations :: "'h register \<Rightarrow> nat \<Rightarrow> 'h process \<Rightarrow> 'h process" where
  "invocations register 0 s = s"
| "invocations register (Suc n) s =
     invocations register n (snd (ensureStagehandSelectorEngine register s))"

lemma ensure_sets_flag:
  "stagehandSelectorRegistered (snd (ensureStagehandSelectorEngine register s))"
  by (simp add: ensureStagehandSelectorEngine_def Let_def split: prod.splits option.splits)

lemma ensure_registered_noop:
  "stagehandSelectorRegistered s \<Longrightarrow> ensureStagehandSelectorEngine register s = (Inr (), s)"
  by (simp add: ensureStagehandSelectorEngine_def)

lemma invocations_registered_noop:
  "stagehandSelectorRegistered s \<Longrightarrow> invocations register n s = s"
  by (induction n) (simp_all add: ensure_registered_noop)

lemma ensure_first_counts:
  "\<not> stagehandSelectorRegistered s \<Longrightarrow>
   register_calls (snd (ensureStagehandSelectorEngine register s)) = Suc (register_calls s)"
  by (simp add: ensureStagehandSelectorEngine_def Let_def split: prod.splits option.splits)

text \<open>
  Claim C9. Starting from a fresh process, after any number of invocations the host's
  \<^verbatim>\<open>register\<close> has been called at most once (never before the first invocation, once
  from then on, whether or not that registration was rejected), and every invocation
  after the first returns without error and leaves the whole state as it is.
\<close>

theorem selector_engine_registered_once:
  "register_calls (invocations register n (initial_process h)) = (if n = 0 then 0 else 1)
   \<and> ensureStagehandSelectorEngine register (invocations register (Suc n) (initial_process h))
       = (Inr (), invocations register (Suc n) (initial_process h))"
proof -
  let ?s1 = "snd (ensureStagehandSelectorEngine register (initial_process h))"
  have flag: "stagehandSelectorRegistered ?s1" by (rule ensure_sets_flag)
  have later: "invocations register (Suc k) (initial_process h) = ?s1" for k
    using flag by (simp add: invocations_registered_noop)
  have "register_calls ?s1 = 1"
    using ensure_first_counts [of "initial_process h" register]
    by (simp add: initial_process_def)
  then have count: "register_calls (invocations register n (initial_process h)) = (if n = 0 then 0 else 1)"
    using later by (cases n) (simp_all add: initial_process_def)
  have "ensureStagehandSelectorEngine register ?s1 = (Inr (), ?s1)"
    using flag by (rule ensure_registered_noop)
  with count later show ?thesis by simp
qed

section \<open>Session Registry\<close>

text \<open>
  Targets and sessions are objects compared by identity: numbers. A thrown value is a
  JavaScript error with an optional \<^verbatim>\<open>message\<close>. The engine's \<^verbatim>\<open>newCDPSession\<close>
  belongs to the browser-control library: it is a parameter, a function on the engine's
  state that returns a session or throws.
\<close>

type_synonym target = nat
type_synonym session = nat

datatype js_error = JsError (message: "string option")

type_synonym 'e new_session = "target \<Rightarrow> 'e \<Rightarrow> (js_error + session) \<times> 'e"

record 'e registry =
  cdpClients :: "target \<rightharpoonup> session"
  page :: target
  engine :: 'e

text \<open>\<^verbatim>\<open>String.prototype.includes\<close>: the second string occurs somewhere in the first.\<close>

fun includes_str :: "string \<Rightarrow> string \<Rightarrow> bool" where
  "includes_str [] t = (t = [])"
| "includes_str (c # cs) t = (take (length t) (c # cs) = t \<or> includes_str cs t)"

definition no_separate_session :: "js_error \<Rightarrow> bool" where
  "no_separate_session err =
     includes_str (case message err of None \<Rightarrow> [] | Some msg \<Rightarrow> msg)
       ''does not have a separate CDP session''"

text \<open>
  The fallback calls \<^verbatim>\<open>getCDPClient(this.page)\<close> again, and nothing in the code bounds
  that recursion (an engine that refuses the page itself with the same message makes it
  run forever), so the function is partial: \<open>None\<close> is "does not return".
\<close>

partial_function (option) getCDPClient ::
  "'e new_session \<Rightarrow> target \<Rightarrow> 'e registry \<Rightarrow> ((js_error + session) \<times> 'e registry) option" where
  "getCDPClient newCDPSession target s =
     (case cdpClients s target of
        Some cached \<Rightarrow> Some (Inr cached, s)
      | None \<Rightarrow>
          (case newCDPSession target (engine s) of
             (Inr session, e) \<Rightarrow>
               Some (Inr session, s\<lparr>cdpClients := (cdpClients s)(target \<mapsto> session), engine := e\<rparr>)
           | (Inl err, e) \<Rightarrow>
               if no_separate_session err then
                 Option.bind (getCDPClient newCDPSession (page s) (s\<lparr>engine := e\<rparr>))
                   (\<lambda>(r, s'). case r of
                        Inl err' \<Rightarrow> Some (Inl err', s')
                      | Inr rootSession \<Rightarrow>
                          Some (Inr rootSession, s'\<lparr>cdpClients := (cdpClients s')(target \<mapsto> rootSession)\<rparr>))
               else Some (Inl err, s\<lparr>engine := e\<rparr>)))"

text \<open>
  An engine for the examples: it creates session 100 for target 0 (the page), reports
  target 1 as part of its parent's session, and fails otherwise; its state counts the
  creation attempts.
\<close>

abbreviation example_engine :: "nat new_session" where
  "example_engine \<equiv> (\<lambda>t e.
     if t = 0 then (Inr 100, Suc e)
     else if t = 1 then (Inl (JsError (Some ''This frame does not have a separate CDP session'')), Suc e)
     else (Inl (JsError (Some ''Target closed'')), Suc e))"

lemma getCDPClient_cached:
  "cdpClients s t = Some c \<Longrightarrow> getCDPClient new t s = Some (Inr c, s)"
  by (subst getCDPClient.simps) simp

lemma getCDPClient_created:
  "cdpClients s t = None \<Longrightarrow> new t (engine s) = (Inr c, e) \<Longrightarrow>
   getCDPClient new t s = Some (Inr c, s\<lparr>cdpClients := (cdpClients s)(t \<mapsto> c), engine := e\<rparr>)"
  by (subst getCDPClient.simps) simp

lemma getCDPClient_other_error:
  "cdpClients s t = None \<Longrightarrow> new t (engine s) = (Inl err, e) \<Longrightarrow> \<not> no_separate_session err \<Longrightarrow>
   getCDPClient new t s = Some (Inl err, s\<lparr>engine := e\<rparr>)"
  by (subst getCDPClient.simps) simp

lemma getCDPClient_fallback:
  "cdpClients s t = None \<Longrightarrow> new t (engine s) = (Inl err, e) \<Longrightarrow> no_separate_session err \<Longrightarrow>
   getCDPClient new (page s) (s\<lparr>engine := e\<rparr>) = Some (Inr root, s') \<Longrightarrow>
   getCDPClient new t s = Some (Inr root, s'\<lparr>cdpClients := (cdpClients s')(t \<mapsto> root)\<rparr>)"
  by (subst getCDPClient.simps) simp

text \<open>Acquiring the page's session returns as soon as the page is cached or the engine creates it.\<close>

lemma getCDPClient_page_returns:
  assumes "cdpClients s (page s) = Some root
           \<or> cdpClients s (page s) = None \<and> new (page s) (engine s) = (Inr root, e)"
  shows "\<exists>s'. getCDPClient new (page s) s = Some (Inr root, s')
            \<and> cdpClients s' (page s) = Some root \<and> page s' = page s"
  using assms
proof
  assume "cdpClients s (page s) = Some root"
  then show ?thesis by (auto simp: getCDPClient_cached)
next
  assume "cdpClients s (page s) = None \<and> new (page s) (engine s) = (Inr root, e)"
  then show ?thesis by (auto simp: getCDPClient_created)
qed

text \<open>
  Claim C3. (1) A cached session is returned, and nothing changes. (2) When creation
  fails with the engine's message that the target has no separate session and the
  acquisition of the main page's session returns \<open>root\<close>, the call returns \<open>root\<close> and
  caches it under the failed target; every later call for that target returns \<open>root\<close>
  from the cache and leaves the state, the engine's included, as it is (no new
  attempt). (3) That acquisition does return when the page is cached or the engine
  creates a session for it, and then the page and the target hold the same session.
  (4) Any other failure of the creation is returned as it is, and nothing is cached.
\<close>

theorem session_registry_acquire:
  "(cdpClients s t = Some c \<longrightarrow> getCDPClient new t s = Some (Inr c, s))
   \<and> (cdpClients s t = None \<and> new t (engine s) = (Inl err, e) \<and> no_separate_session err
        \<and> getCDPClient new (page s) (s\<lparr>engine := e\<rparr>) = Some (Inr root, s')
      \<longrightarrow> getCDPClient new t s = Some (Inr root, s'\<lparr>cdpClients := (cdpClients s')(t \<mapsto> root)\<rparr>)
          \<and> getCDPClient new t (s'\<lparr>cdpClients := (cdpClients s')(t \<mapsto> root)\<rparr>)
              = Some (Inr root, s'\<lparr>cdpClients := (cdpClients s')(t \<mapsto> root)\<rparr>))
   \<and> (cdpClients s t = None \<and> new t (engine s) = (Inl err, e) \<and> no_separate_session err
        \<and> (cdpClients s (page s) = Some root
            \<or> cdpClients s (page s) = None \<and> new (page s) e = (Inr root, e'))
      \<longrightarrow> (\<exists>s''. getCDPClient new t s = Some (Inr root, s'')
             \<and> cdpClients s'' t = Some root \<and> cdpClients s'' (page s'') = Some root
             \<and> getCDPClient new t s'' = Some (Inr root, s'')
             \<and> getCDPClient new (page s'') s'' = Some (Inr root, s'')))
   \<and> (cdpClients s t = None \<and> new t (engine s) = (Inl err, e) \<and> \<not> no_separate_session err
      \<longrightarrow> getCDPClient new t s = Some (Inl err, s\<lparr>engine := e\<rparr>))"
proof -
  have p1: "getCDPClient new t s = Some (Inr c, s)" if "cdpClients s t = Some c"
    using that by (rule getCDPClient_cached)
  have p2: "getCDPClient new t s = Some (Inr root, s'\<lparr>cdpClients := (cdpClients s')(t \<mapsto> root)\<rparr>)
          \<and> getCDPClient new t (s'\<lparr>cdpClients := (cdpClients s')(t \<mapsto> root)\<rparr>)
              = Some (Inr root, s'\<lparr>cdpClients := (cdpClients s')(t \<mapsto> root)\<rparr>)"
    if "cdpClients s t = None" "new t (engine s) = (Inl err, e)" "no_separate_session err"
       "getCDPClient new (page s) (s\<lparr>engine := e\<rparr>) = Some (Inr root, s')" for root s'
    using that by (simp add: getCDPClient_fallback getCDPClient_cached)
  have p3: "\<exists>s''. getCDPClient new t s = Some (Inr root, s'')
             \<and> cdpClients s'' t = Some root \<and> cdpClients s'' (page s'') = Some root
             \<and> getCDPClient new t s'' = Some (Inr root, s'')
             \<and> getCDPClient new (page s'') s'' = Some (Inr root, s'')"
    if miss: "cdpClients s t = None" and fail: "new t (engine s) = (Inl err, e)"
      and nss: "no_separate_session err"
      and pg: "cdpClients s (page s) = Some root
            \<or> cdpClients s (page s) = None \<and> new (page s) e = (Inr root, e')"
  proof -
    let ?s1 = "s\<lparr>engine := e\<rparr>"
    from pg have "cdpClients ?s1 (page ?s1) = Some root
        \<or> cdpClients ?s1 (page ?s1) = None \<and> new (page ?s1) (engine ?s1) = (Inr root, e')"
      by simp
    from getCDPClient_page_returns [of ?s1 root new e', OF this]
    obtain s' where inner: "getCDPClient new (page s) ?s1 = Some (Inr root, s')"
      and cached: "cdpClients s' (page s) = Some root" and pg': "page s' = page s"
      by auto
    let ?s2 = "s'\<lparr>cdpClients := (cdpClients s')(t \<mapsto> root)\<rparr>"
    from p2 [OF miss fail nss inner]
    have "getCDPClient new t s = Some (Inr root, ?s2)"
      and "getCDPClient new t ?s2 = Some (Inr root, ?s2)" by simp_all
    moreover have "cdpClients ?s2 t = Some root" by simp
    moreover have c2: "cdpClients ?s2 (page ?s2) = Some root" using cached pg' by simp
    moreover have "getCDPClient new (page ?s2) ?s2 = Some (Inr root, ?s2)"
      using c2 by (rule getCDPClient_cached)
    ultimately show ?thesis by blast
  qed
  have p4: "getCDPClient new t s = Some (Inl err, s\<lparr>engine := e\<rparr>)"
    if "cdpClients s t = None" "new t (engine s) = (Inl err, e)" "\<not> no_separate_session err"
    using that by (rule getCDPClient_other_error)
  from p1 p2 p3 p4 show ?thesis by blast
qed

theorem session_registry_acquire_witness:
  "getCDPClient example_engine 0 \<lparr>cdpClients = [0 \<mapsto> 100], page = 0, engine = 1\<rparr>
     = Some (Inr 100, \<lparr>cdpClients = [0 \<mapsto> 100], page = 0, engine = 1\<rparr>)
   \<and> getCDPClient example_engine 1 \<lparr>cdpClients = Map.empty, page = 0, engine = 0\<rparr>
     = Some (Inr 100, \<lparr>cdpClients = [0 \<mapsto> 100, 1 \<mapsto> 100], page = 0, engine = 2\<rparr>)
   \<and> getCDPClient example_engine 1 \<lparr>cdpClients = [0 \<mapsto> 100, 1 \<mapsto> 100], page = 0, engine = 2\<rparr>
     = Some (Inr 100, \<lparr>cdpClients = [0 \<mapsto> 100, 1 \<mapsto> 100], page = 0, engine = 2\<rparr>)
   \<and> (\<exists>s''. getCDPClient example_engine 1 \<lparr>cdpClients = Map.empty, page = 0, engine = 0\<rparr>
                = Some (Inr 100, s'')
           \<and> cdpClients s'' 1 = Some 100 \<and> cdpClients s'' (page s'') = Some 100
           \<and> getCDPClient example_engine 1 s'' = Some (Inr 100, s'')
           \<and> getCDPClient example_engine (page s'') s'' = Some (Inr 100, s''))
   \<and> getCDPClient example_engine 2 \<lparr>cdpClients = Map.empty, page = 0, engine = 0\<rparr>
     = Some (Inl (JsError (Some ''Target closed'')), \<lparr>cdpClients = Map.empty, page = 0, engine = 1\<rparr>)"
proof -
  let ?s0 = "\<lparr>cdpClients = Map.empty, page = 0, engine = 0::nat\<rparr>"
  let ?s1 = "\<lparr>cdpClients = [0 \<mapsto> 100], page = 0, engine = 1::nat\<rparr>"
  let ?nss = "JsError (Some ''This frame does not have a separate CDP session'')"
  have a: "no_separate_session ?nss" and b: "\<not> no_separate_session (JsError (Some ''Target closed''))"
    by (simp_all add: no_separate_session_def)
  have inner: "getCDPClient example_engine 0 (?s0\<lparr>engine := 1\<rparr>)
      = Some (Inr 100, \<lparr>cdpClients = [0 \<mapsto> 100], page = 0, engine = 2\<rparr>)"
    by (subst getCDPClient.simps) simp
  from session_registry_acquire [where s = ?s1 and t = 0 and c = 100 and new = example_engine]
  have w1: "getCDPClient example_engine 0 ?s1 = Some (Inr 100, ?s1)" by simp
  from session_registry_acquire [where s = ?s0 and t = 1 and new = example_engine and err = ?nss
      and e = 1 and root = 100 and s' = "\<lparr>cdpClients = [0 \<mapsto> 100], page = 0, engine = 2\<rparr>"]
    a inner
  have w2: "getCDPClient example_engine 1 ?s0
     = Some (Inr 100, \<lparr>cdpClients = [0 \<mapsto> 100, 1 \<mapsto> 100], page = 0, engine = 2\<rparr>)
   \<and> getCDPClient example_engine 1 \<lparr>cdpClients = [0 \<mapsto> 100, 1 \<mapsto> 100], page = 0, engine = 2\<rparr>
     = Some (Inr 100, \<lparr>cdpClients = [0 \<mapsto> 100, 1 \<mapsto> 100], page = 0, engine = 2\<rparr>)" by simp
  from session_registry_acquire [where s = ?s0 and t = 1 and new = example_engine and err = ?nss
      and e = 1 and root = 100 and e' = 2] a
  have w3: "\<exists>s''. getCDPClient example_engine 1 ?s0 = Some (Inr 100, s'')
           \<and> cdpClients s'' 1 = Some 100 \<and> cdpClients s'' (page s'') = Some 100
           \<and> getCDPClient example_engine 1 s'' = Some (Inr 100, s'')
           \<and> getCDPClient example_engine (page s'') s'' = Some (Inr 100, s'')" by simp
  from session_registry_acquire [where s = ?s0 and t = 2 and new = example_engine
      and err = "JsError (Some ''Target closed'')" and e = 1] b
  have w4: "getCDPClient example_engine 2 ?s0
     = Some (Inl (JsError (Some ''Target closed'')), \<lparr>cdpClients = Map.empty, page = 0, engine = 1\<rparr>)" by simp
  from w1 w2 w3 w4 show ?thesis by blast
qed

section \<open>Encoded element addresses\<close>

text \<open>
  A template literal renders a number with \<^verbatim>\<open>Number.prototype.toString\<close>. For an
  integer whose absolute value is below \<open>2 ^ 53\<close> (a safe integer: every such integer is
  a \<^verbatim>\<open>number\<close> of its own) that is its base-10 digits, with a leading minus sign when
  it is negative. Beyond that range a \<^verbatim>\<open>number\<close> is a rounded floating-point value;
  numbers are modelled as \<open>nat\<close> and \<open>int\<close>, and the claim is stated for safe integers.
\<close>

definition digit_char :: "nat \<Rightarrow> char" where
  "digit_char d = char_of (48 + d)"

function show_nat :: "nat \<Rightarrow> string" where
  "show_nat n = (if n < 10 then [digit_char n] else show_nat (n div 10) @ [digit_char (n mod 10)])"
  by pat_completeness auto
termination
  by (relation "measure id") auto

declare show_nat.simps [simp del]

definition show_int :: "int \<Rightarrow> string" where
  "show_int i = (if i < 0 then CHR ''-'' # show_nat (nat (- i)) else show_nat (nat i))"

definition is_safe_integer :: "int \<Rightarrow> bool" where
  "is_safe_integer i \<longleftrightarrow> \<bar>i\<bar> \<le> 2 ^ 53 - 1"

definition encodeWithFrameId :: "string option \<Rightarrow> int \<Rightarrow> fid_ordinals \<Rightarrow> string \<times> fid_ordinals" where
  "encodeWithFrameId fid backendId m =
     (let (ordinal, m') = ordinalForFrameId fid m
      in (show_nat ordinal @ ''-'' @ show_int backendId, m'))"

text \<open>
  Modelled from the spec: the parser of an encoded address is not in this file. The spec
  gives the format, \<^verbatim>\<open>"<ordinal>-<backendId>"\<close> with a non-negative base-10 ordinal and an
  integer backend id, and the claim has the token parsed at its first separator.
\<close>

definition is_digit :: "char \<Rightarrow> bool" where
  "is_digit c \<longleftrightarrow> 48 \<le> (of_char c :: nat) \<and> (of_char c :: nat) \<le> 57"

definition digit_val :: "char \<Rightarrow> nat" where
  "digit_val c = of_char c - 48"

definition parse_nat :: "string \<Rightarrow> nat option" where
  "parse_nat cs =
     (if cs \<noteq> [] \<and> list_all is_digit cs
      then Some (foldl (\<lambda>a c. 10 * a + digit_val c) 0 cs) else None)"

definition parse_int :: "string \<Rightarrow> int option" where
  "parse_int cs =
     (case cs of
        [] \<Rightarrow> None
      | c # ds \<Rightarrow>
          if c = CHR ''-'' then map_option (\<lambda>n. - int n) (parse_nat ds)
          else map_option int (parse_nat cs))"

definition parse_encoded :: "string \<Rightarrow> (nat \<times> int) option" where
  "parse_encoded tok =
     (case dropWhile (\<lambda>c. c \<noteq> CHR ''-'') tok of
        [] \<Rightarrow> None
      | sep # rest \<Rightarrow>
          (case (parse_nat (takeWhile (\<lambda>c. c \<noteq> CHR ''-'') tok), parse_int rest) of
             (Some ordinal, Some backendId) \<Rightarrow> Some (ordinal, backendId)
           | _ \<Rightarrow> None))"

lemma is_digit_digit_char: "d < 10 \<Longrightarrow> is_digit (digit_char d)"
  by (simp add: is_digit_def digit_char_def)

lemma digit_val_digit_char: "d < 10 \<Longrightarrow> digit_val (digit_char d) = d"
  by (simp add: digit_val_def digit_char_def)

lemma show_nat_digits: "show_nat n \<noteq> [] \<and> list_all is_digit (show_nat n)"
proof (induction n rule: show_nat.induct)
  case (1 n)
  show ?case
  proof (cases "n < 10")
    case True
    then show ?thesis by (subst (1 2) show_nat.simps) (simp add: is_digit_digit_char)
  next
    case False
    with 1 show ?thesis by (subst (1 2) show_nat.simps) (simp add: is_digit_digit_char)
  qed
qed

lemma show_nat_value: "foldl (\<lambda>a c. 10 * a + digit_val c) 0 (show_nat n) = n"
proof (induction n rule: show_nat.induct)
  case (1 n)
  show ?case
  proof (cases "n < 10")
    case True
    then show ?thesis by (subst show_nat.simps) (simp add: digit_val_digit_char)
  next
    case False
    with 1 show ?thesis by (subst show_nat.simps) (simp add: digit_val_digit_char)
  qed
qed

lemma parse_show_nat: "parse_nat (show_nat n) = Some n"
  by (simp add: parse_nat_def show_nat_digits show_nat_value)

lemma is_digit_not_minus: "is_digit c \<Longrightarrow> c \<noteq> CHR ''-''"
  by (auto simp: is_digit_def)

lemma show_nat_hd_not_minus: "hd (show_nat n) \<noteq> CHR ''-''"
proof -
  have "show_nat n \<noteq> []" "list_all is_digit (show_nat n)" by (simp_all add: show_nat_digits)
  then have "is_digit (hd (show_nat n))" by (cases "show_nat n") simp_all
  then show ?thesis by (rule is_digit_not_minus)
qed

lemma parse_show_int: "parse_int (show_int i) = Some i"
proof (cases "i < 0")
  case True
  then show ?thesis by (simp add: parse_int_def show_int_def parse_show_nat)
next
  case False
  obtain c ds where cs: "show_nat (nat i) = c # ds"
    using show_nat_digits [of "nat i"] by (cases "show_nat (nat i)") auto
  with show_nat_hd_not_minus [of "nat i"] have "c \<noteq> CHR ''-''" by simp
  moreover have "parse_nat (c # ds) = Some (nat i)" using cs parse_show_nat [of "nat i"] by simp
  ultimately show ?thesis using False cs by (simp add: parse_int_def show_int_def)
qed

lemma show_nat_no_minus: "\<forall>c \<in> set (show_nat n). c \<noteq> CHR ''-''"
  using show_nat_digits [of n] by (auto simp: list_all_iff dest: is_digit_not_minus)

lemma parse_encoded_roundtrip:
  "parse_encoded (show_nat n @ ''-'' @ show_int i) = Some (n, i)"
proof -
  have t: "takeWhile (\<lambda>c. c \<noteq> CHR ''-'') (show_nat n @ ''-'' @ show_int i) = show_nat n"
    using show_nat_no_minus [of n] by simp
  have d: "dropWhile (\<lambda>c. c \<noteq> CHR ''-'') (show_nat n @ ''-'' @ show_int i) = ''-'' @ show_int i"
    using show_nat_no_minus [of n] by simp
  show ?thesis
    unfolding parse_encoded_def t d by (simp add: parse_show_nat parse_show_int)
qed

text \<open>
  Claim C7. For every frame id, every map of ordinals and every safe integer backend
  id, \<^verbatim>\<open>encodeWithFrameId\<close> yields the ordinal of the frame, a minus sign and the backend
  id, both in base 10, and parsing the token at its first separator gives back that
  ordinal and that backend id.
\<close>

theorem encode_roundtrip:
  assumes "is_safe_integer backendId"
  shows "fst (encodeWithFrameId fid backendId m)
           = show_nat (fst (ordinalForFrameId fid m)) @ ''-'' @ show_int backendId
       \<and> parse_encoded (fst (encodeWithFrameId fid backendId m))
           = Some (fst (ordinalForFrameId fid m), backendId)"
  by (simp add: encodeWithFrameId_def split_beta parse_encoded_roundtrip del: append.simps)

theorem encode_roundtrip_witness:
  "is_safe_integer (- 42)
   \<and> fst (encodeWithFrameId (Some ''F'') (- 42) initial_fidOrdinals) = ''1--42''
   \<and> parse_encoded ''1--42'' = Some (1, - 42)"
proof -
  have safe: "is_safe_integer (- 42)" by (simp add: is_safe_integer_def)
  have tok: "fst (encodeWithFrameId (Some ''F'') (- 42) initial_fidOrdinals) = ''1--42''"
    by code_simp
  have ord: "fst (ordinalForFrameId (Some ''F'') initial_fidOrdinals) = 1"
    by (simp add: ordinalForFrameId_def initial_fidOrdinals_def)
  note rt = encode_roundtrip [OF safe, of "Some ''F''" initial_fidOrdinals]
  from rt [unfolded tok ord] have "parse_encoded ''1--42'' = Some (1, - 42)"
    by (rule conjunct2)
  with safe tok show ?thesis by blast
qed

section \<open>Settlement Detector\<close>

subsection \<open>The state of one wait\<close>

text \<open>
  The promise body of \<^verbatim>\<open>_waitForSettledDom\<close> closes over \<^verbatim>\<open>inflight\<close> (a set of
  request ids), \<^verbatim>\<open>meta\<close> and \<^verbatim>\<open>docByFrame\<close> (maps, iterated in insertion order, so
  association lists) and three timers. A timer is the time in milliseconds at which it
  is due, or \<open>None\<close> when it is not armed. \<open>listening\<close> says whether the six handlers
  are attached to the session, \<open>resolved\<close> holds the time of the call of \<^verbatim>\<open>resolve\<close>,
  and \<open>logs\<close> collects what is logged.
\<close>

record req_meta =
  url :: string
  start :: nat

datatype log_entry = StalledLog string | TimeoutLog nat

record detector =
  inflight :: "string set"
  meta :: "(string \<times> req_meta) list"
  docByFrame :: "(string \<times> string) list"
  quietTimer :: "nat option"
  stalledRequestSweepTimer :: "nat option"
  guard :: "nat option"
  listening :: bool
  resolved :: "nat option"
  logs :: "log_entry list"

datatype cdp_event =
    RequestWillBeSent string "string option" "string option" string
  | LoadingFinished string
  | LoadingFailed string
  | RequestServedFromCache string
  | ResponseReceived string string
  | FrameStoppedLoading string

text \<open>
  The fields of \<open>RequestWillBeSent\<close> are \<^verbatim>\<open>requestId\<close>, \<^verbatim>\<open>type\<close>, \<^verbatim>\<open>frameId\<close>
  (both optional in the protocol) and \<^verbatim>\<open>request.url\<close>; those of \<open>ResponseReceived\<close>
  are \<^verbatim>\<open>requestId\<close> and \<^verbatim>\<open>response.url\<close>.
\<close>

definition clearQuiet :: "detector \<Rightarrow> detector" where
  "clearQuiet s = (case quietTimer s of Some d \<Rightarrow> s\<lparr>quietTimer := None\<rparr> | None \<Rightarrow> s)"

definition maybeQuiet :: "nat \<Rightarrow> detector \<Rightarrow> detector" where
  "maybeQuiet now s =
     (if inflight s = {} \<and> quietTimer s = None then s\<lparr>quietTimer := Some (now + 500)\<rparr> else s)"

definition finishReq :: "nat \<Rightarrow> string \<Rightarrow> detector \<Rightarrow> detector" where
  "finishReq now rid s =
     (if rid \<notin> inflight s then s
      else maybeQuiet now (clearQuiet
        (s\<lparr>inflight := inflight s - {rid},
           meta := AList.delete rid (meta s),
           docByFrame := filter (\<lambda>(fid, r). r \<noteq> rid) (docByFrame s)\<rparr>)))"

definition onRequest ::
  "nat \<Rightarrow> string \<Rightarrow> string option \<Rightarrow> string option \<Rightarrow> string \<Rightarrow> detector \<Rightarrow> detector" where
  "onRequest now requestId rtype frameId u s =
     (if rtype = Some ''WebSocket'' \<or> rtype = Some ''EventSource'' then s
      else clearQuiet
        (s\<lparr>inflight := insert requestId (inflight s),
           meta := AList.update requestId \<lparr>url = u, start = now\<rparr> (meta s),
           docByFrame :=
             (case frameId of
                Some f \<Rightarrow>
                  if rtype = Some ''Document'' \<and> f \<noteq> [] then AList.update f requestId (docByFrame s)
                  else docByFrame s
              | None \<Rightarrow> docByFrame s)\<rparr>))"

definition onDataUrl :: "nat \<Rightarrow> string \<Rightarrow> string \<Rightarrow> detector \<Rightarrow> detector" where
  "onDataUrl now requestId u s = (if take 5 u = ''data:'' then finishReq now requestId s else s)"

definition onFrameStop :: "nat \<Rightarrow> string \<Rightarrow> detector \<Rightarrow> detector" where
  "onFrameStop now frameId s =
     (case map_of (docByFrame s) frameId of
        Some rid \<Rightarrow> if rid \<noteq> [] then finishReq now rid s else s
      | None \<Rightarrow> s)"

text \<open>
  The sweep. \<^verbatim>\<open>now - m.start > 2_000\<close> is false when the difference is negative, as the
  truncated difference of natural numbers is. Deleting the current entry of a map while
  iterating over it is allowed in JavaScript: the loop goes on with the next entry.
\<close>

definition stalled :: "nat \<Rightarrow> string \<times> req_meta \<Rightarrow> bool" where
  "stalled now e \<longleftrightarrow> now - start (snd e) > 2000"

definition sweep :: "nat \<Rightarrow> detector \<Rightarrow> detector" where
  "sweep now s =
     maybeQuiet now
       (s\<lparr>inflight := inflight s - fst ` set (filter (stalled now) (meta s)),
          meta := filter (\<lambda>e. \<not> stalled now e) (meta s),
          logs := logs s @ map (\<lambda>e. StalledLog (take 120 (url (snd e)))) (filter (stalled now) (meta s))\<rparr>)"

definition resolveDone :: "nat \<Rightarrow> detector \<Rightarrow> detector" where
  "resolveDone now s =
     s\<lparr>listening := False, quietTimer := None, stalledRequestSweepTimer := None, guard := None,
       resolved := (case resolved s of None \<Rightarrow> Some now | Some t \<Rightarrow> Some t)\<rparr>"

definition guardFired :: "nat \<Rightarrow> detector \<Rightarrow> detector" where
  "guardFired now s =
     resolveDone now
       (if inflight s \<noteq> {} then s\<lparr>logs := logs s @ [TimeoutLog (card (inflight s))]\<rparr> else s)"

text \<open>
  The state when the promise body has run, at time \<open>now\<close>: the handlers are attached,
  the sweep interval is started, \<^verbatim>\<open>maybeQuiet\<close> is called once and the guard is armed.
\<close>

definition initial_detector :: "nat \<Rightarrow> nat \<Rightarrow> detector" where
  "initial_detector now timeout =
     (maybeQuiet now
        \<lparr>inflight = {}, meta = [], docByFrame = [], quietTimer = None,
         stalledRequestSweepTimer = Some (now + 500), guard = None,
         listening = True, resolved = None, logs = []\<rparr>)
     \<lparr>guard := Some (now + timeout)\<rparr>"

subsection \<open>The event loop\<close>

text \<open>
  Everything runs on one event loop, one callback at a time. An occurrence is what the
  loop runs next: a handler for a protocol event, or the callback of a timer. A handler
  runs only while it is attached; a timer's callback runs only when the timer is armed
  and due. An interval is armed again, 500 ms after it ran.
\<close>

datatype occurrence = Cdp cdp_event | QuietFires | SweepFires | GuardFires

definition dispatch :: "nat \<Rightarrow> cdp_event \<Rightarrow> detector \<Rightarrow> detector" where
  "dispatch now ev s =
     (if \<not> listening s then s
      else case ev of
          RequestWillBeSent rid rtype fid u \<Rightarrow> onRequest now rid rtype fid u s
        | LoadingFinished rid \<Rightarrow> finishReq now rid s
        | LoadingFailed rid \<Rightarrow> finishReq now rid s
        | RequestServedFromCache rid \<Rightarrow> finishReq now rid s
        | ResponseReceived rid u \<Rightarrow> onDataUrl now rid u s
        | FrameStoppedLoading fid \<Rightarrow> onFrameStop now fid s)"

definition due :: "nat \<Rightarrow> nat option \<Rightarrow> bool" where
  "due now timer = (case timer of Some d \<Rightarrow> d \<le> now | None \<Rightarrow> False)"

definition step :: "nat \<Rightarrow> occurrence \<Rightarrow> detector \<Rightarrow> detector" where
  "step now occ s =
     (case occ of
        Cdp ev \<Rightarrow> dispatch now ev s
      | QuietFires \<Rightarrow> if due now (quietTimer s) then resolveDone now s else s
      | SweepFires \<Rightarrow>
          if due now (stalledRequestSweepTimer s)
          then (sweep now s)\<lparr>stalledRequestSweepTimer := Some (now + 500)\<rparr> else s
      | GuardFires \<Rightarrow> if due now (guard s) then guardFired now s else s)"

fun run :: "(nat \<times> occurrence) list \<Rightarrow> detector \<Rightarrow> detector" where
  "run [] s = s"
| "run ((now, occ) # tr) s = run tr (step now occ s)"

text \<open>
  A schedule the event loop can produce, with timers at most \<open>tick\<close> late: time does not
  go back, a timer's callback runs only when the timer is due, and nothing runs at a
  time when an armed timer is overdue by more than \<open>tick\<close>.
\<close>

definition not_overdue :: "nat \<Rightarrow> nat \<Rightarrow> nat option \<Rightarrow> bool" where
  "not_overdue tick now timer = (case timer of Some d \<Rightarrow> now \<le> d + tick | None \<Rightarrow> True)"

definition on_time :: "nat \<Rightarrow> nat \<Rightarrow> detector \<Rightarrow> bool" where
  "on_time tick now s \<longleftrightarrow>
     not_overdue tick now (quietTimer s) \<and> not_overdue tick now (stalledRequestSweepTimer s)
     \<and> not_overdue tick now (guard s)"

definition enabled :: "nat \<Rightarrow> occurrence \<Rightarrow> detector \<Rightarrow> bool" where
  "enabled now occ s =
     (case occ of
        Cdp ev \<Rightarrow> True
      | QuietFires \<Rightarrow> due now (quietTimer s)
      | SweepFires \<Rightarrow> due now (stalledRequestSweepTimer s)
      | GuardFires \<Rightarrow> due now (guard s))"

fun schedule :: "nat \<Rightarrow> nat \<Rightarrow> (nat \<times> occurrence) list \<Rightarrow> detector \<Rightarrow> bool" where
  "schedule tick t [] s = True"
| "schedule tick t ((now, occ) # tr) s =
     (t \<le> now \<and> on_time tick now s \<and> enabled now occ s \<and> schedule tick now tr (step now occ s))"

subsection \<open>Set-up of a wait\<close>

text \<open>
  Before the promise is built, \<^verbatim>\<open>_waitForSettledDom\<close> awaits \<^verbatim>\<open>getCDPClient()\<close>, the
  page's title (a rejection is caught and counts as no document), the load state when
  there is no document, and three protocol commands. Only the title has a handler for
  rejection; any other rejection rejects the promise of the \<^verbatim>\<open>async\<close> function. The
  page's and the session's answers are parameters.
\<close>

record wait_env =
  title :: "js_error + string"
  waitForLoadState :: "js_error option"
  send :: "session \<Rightarrow> string \<Rightarrow> js_error option"
  domSettleTimeoutMs :: nat
  clock :: nat

definition waitForSettledDom ::
  "'e new_session \<Rightarrow> wait_env \<Rightarrow> nat option \<Rightarrow> 'e registry \<Rightarrow> (js_error + detector) option" where
  "waitForSettledDom newCDPSession env timeoutMs reg =
     (let timeout = (case timeoutMs of Some t \<Rightarrow> t | None \<Rightarrow> domSettleTimeoutMs env) in
      case getCDPClient newCDPSession (page reg) reg of
        None \<Rightarrow> None
      | Some (Inl err, reg') \<Rightarrow> Some (Inl err)
      | Some (Inr client, reg') \<Rightarrow>
          (let hasDoc = (case title env of Inl err \<Rightarrow> False | Inr t \<Rightarrow> t \<noteq> []) in
           case (if hasDoc then None else waitForLoadState env) of
             Some err \<Rightarrow> Some (Inl err)
           | None \<Rightarrow>
               (case send env client ''Network.enable'' of
                  Some err \<Rightarrow> Some (Inl err)
                | None \<Rightarrow>
                    (case send env client ''Page.enable'' of
                       Some err \<Rightarrow> Some (Inl err)
                     | None \<Rightarrow>
                         (case send env client ''Target.setAutoAttach'' of
                            Some err \<Rightarrow> Some (Inl err)
                          | None \<Rightarrow> Some (Inr (initial_detector (clock env) timeout)))))))"

text \<open>An environment for the examples: a titled page, every command accepted, time 0.\<close>

abbreviation example_env :: wait_env where
  "example_env \<equiv> \<lparr>title = Inr ''Home'', waitForLoadState = None, send = (\<lambda>c m. None),
     domSettleTimeoutMs = 30000, clock = 0\<rparr>"

subsection \<open>Properties of the handlers\<close>

lemmas handler_defs =
  clearQuiet_def maybeQuiet_def finishReq_def onRequest_def onDataUrl_def onFrameStop_def

lemmas loop_defs = dispatch_def step_def due_def

lemma run_append: "run (tr1 @ tr2) s = run tr2 (run tr1 s)"
  by (induction tr1 arbitrary: s) auto

lemma schedule_earlier: "schedule tick t' tr s \<Longrightarrow> t \<le> t' \<Longrightarrow> schedule tick t tr s"
  by (cases tr) auto

lemma schedule_append:
  "schedule tick t (tr1 @ tr2) s \<Longrightarrow> schedule tick t tr1 s"
  by (induction tr1 arbitrary: t s) auto

lemma schedule_skip:
  "schedule tick t (tr1 @ (now, occ) # tr2) s \<Longrightarrow> step now occ (run tr1 s) = run tr1 s \<Longrightarrow>
   schedule tick t (tr1 @ tr2) s"
proof (induction tr1 arbitrary: t s)
  case Nil
  then show ?case by (auto intro: schedule_earlier)
next
  case (Cons a tr1)
  then show ?case by (cases a) auto
qed

lemma onRequest_long_lived:
  "rtype = Some ''WebSocket'' \<or> rtype = Some ''EventSource'' \<Longrightarrow>
   onRequest now rid rtype fid u s = s"
  by (auto simp: onRequest_def)

lemma finishReq_absent: "rid \<notin> inflight s \<Longrightarrow> finishReq now rid s = s"
  by (simp add: finishReq_def)

lemmas eval_defs = handler_defs loop_defs resolveDone_def guardFired_def
  sweep_def stalled_def on_time_def not_overdue_def enabled_def

lemma initial_detector_example:
  "initial_detector 0 30000 =
     \<lparr>inflight = {}, meta = [], docByFrame = [], quietTimer = Some 500,
      stalledRequestSweepTimer = Some 500, guard = Some 30000,
      listening = True, resolved = None, logs = []\<rparr>"
  by (simp add: initial_detector_def maybeQuiet_def)

text \<open>
  Claim C6. A \<^verbatim>\<open>Network.requestWillBeSent\<close> whose type is WebSocket or EventSource
  leaves the whole state of the detector as it is, whenever it arrives: nothing is
  added to \<^verbatim>\<open>inflight\<close>, \<^verbatim>\<open>meta\<close> or the frame map and a pending quiet timer stays
  armed. So a run with such an event ends in the state of the run without it, and a
  schedule with it is a schedule without it: settlement comes at the same time.
\<close>

theorem long_lived_request_ignored:
  assumes "rtype = Some ''WebSocket'' \<or> rtype = Some ''EventSource''"
  shows "step now (Cdp (RequestWillBeSent rid rtype fid u)) s = s
    \<and> run (tr1 @ (now, Cdp (RequestWillBeSent rid rtype fid u)) # tr2) s = run (tr1 @ tr2) s
    \<and> (schedule tick t (tr1 @ (now, Cdp (RequestWillBeSent rid rtype fid u)) # tr2) s
         \<longrightarrow> schedule tick t (tr1 @ tr2) s)"
proof -
  have noop: "step now (Cdp (RequestWillBeSent rid rtype fid u)) s' = s'" for s'
    using assms by (simp add: step_def dispatch_def onRequest_long_lived)
  then have "run (tr1 @ (now, Cdp (RequestWillBeSent rid rtype fid u)) # tr2) s = run (tr1 @ tr2) s"
    by (simp add: run_append)
  moreover have "schedule tick t (tr1 @ tr2) s"
    if "schedule tick t (tr1 @ (now, Cdp (RequestWillBeSent rid rtype fid u)) # tr2) s"
    using that noop by (rule schedule_skip)
  ultimately show ?thesis using noop by blast
qed

theorem long_lived_request_ignored_witness:
  "quietTimer (initial_detector 0 30000) = Some 500
   \<and> step 100 (Cdp (RequestWillBeSent ''ws'' (Some ''WebSocket'') (Some ''F'') ''wss://x''))
        (initial_detector 0 30000) = initial_detector 0 30000
   \<and> run [(100, Cdp (RequestWillBeSent ''ws'' (Some ''WebSocket'') (Some ''F'') ''wss://x'')), (500, QuietFires)]
        (initial_detector 0 30000) = run [(500, QuietFires)] (initial_detector 0 30000)
   \<and> resolved (run [(500, QuietFires)] (initial_detector 0 30000)) = Some 500
   \<and> schedule 0 0 [(100, Cdp (RequestWillBeSent ''ws'' (Some ''WebSocket'') (Some ''F'') ''wss://x'')), (500, QuietFires)]
        (initial_detector 0 30000)
   \<and> schedule 0 0 [(500, QuietFires)] (initial_detector 0 30000)"
proof -
  let ?ws = "Cdp (RequestWillBeSent ''ws'' (Some ''WebSocket'') (Some ''F'') ''wss://x'')"
  let ?i = "initial_detector 0 30000"
  have q: "quietTimer ?i = Some 500"
    unfolding initial_detector_example by simp
  have r: "resolved (run [(500, QuietFires)] ?i) = Some 500"
    unfolding initial_detector_example by (simp add: eval_defs)
  have sch: "schedule 0 0 [(100, ?ws), (500, QuietFires)] ?i"
    unfolding initial_detector_example by (simp add: eval_defs)
  have ws: "Some ''WebSocket'' = Some ''WebSocket'' \<or> Some ''WebSocket'' = Some ''EventSource''"
    by simp
  note t = long_lived_request_ignored [OF ws, of 100 "''ws''" "Some ''F''" "''wss://x''" ?i
      "[]" "[(500, QuietFires)]" 0 0, unfolded append.simps]
  from t have a: "step 100 ?ws ?i = ?i"
    and b: "run [(100, ?ws), (500, QuietFires)] ?i = run [(500, QuietFires)] ?i"
    and c: "schedule 0 0 [(100, ?ws), (500, QuietFires)] ?i \<longrightarrow> schedule 0 0 [(500, QuietFires)] ?i"
    by blast+
  from c sch have d: "schedule 0 0 [(500, QuietFires)] ?i" by blast
  from q a b r sch d show ?thesis by blast
qed

text \<open>
  Claim C10. A completion for a request id that is not in \<^verbatim>\<open>inflight\<close> (a second
  completion, or one for a request the sweep has evicted) changes nothing, whichever of
  the four completion events carries it: loading finished, loading failed, served from
  cache, or a response (with a \<^verbatim>\<open>data:\<close> URL or any other).
\<close>

theorem completion_of_absent_request:
  assumes "rid \<notin> inflight s"
  shows "finishReq now rid s = s
    \<and> step now (Cdp (LoadingFinished rid)) s = s
    \<and> step now (Cdp (LoadingFailed rid)) s = s
    \<and> step now (Cdp (RequestServedFromCache rid)) s = s
    \<and> step now (Cdp (ResponseReceived rid u)) s = s"
  using assms by (simp add: step_def dispatch_def onDataUrl_def finishReq_absent)

theorem completion_of_absent_request_witness:
  "''R'' \<notin> inflight (run [(10, Cdp (RequestWillBeSent ''R'' (Some ''Script'') None ''https://a/x.js'')),
                          (20, Cdp (LoadingFinished ''R''))] (initial_detector 0 30000))
   \<and> quietTimer (run [(10, Cdp (RequestWillBeSent ''R'' (Some ''Script'') None ''https://a/x.js'')),
              (20, Cdp (LoadingFinished ''R''))] (initial_detector 0 30000)) = Some 520
   \<and> step 30 (Cdp (LoadingFinished ''R''))
        (run [(10, Cdp (RequestWillBeSent ''R'' (Some ''Script'') None ''https://a/x.js'')),
              (20, Cdp (LoadingFinished ''R''))] (initial_detector 0 30000))
      = run [(10, Cdp (RequestWillBeSent ''R'' (Some ''Script'') None ''https://a/x.js'')),
              (20, Cdp (LoadingFinished ''R''))] (initial_detector 0 30000)
   \<and> step 30 (Cdp (ResponseReceived ''R'' ''data:,x''))
        (run [(10, Cdp (RequestWillBeSent ''R'' (Some ''Script'') None ''https://a/x.js'')),
              (20, Cdp (LoadingFinished ''R''))] (initial_detector 0 30000))
      = run [(10, Cdp (RequestWillBeSent ''R'' (Some ''Script'') None ''https://a/x.js'')),
              (20, Cdp (LoadingFinished ''R''))] (initial_detector 0 30000)"
proof -
  let ?s = "run [(10, Cdp (RequestWillBeSent ''R'' (Some ''Script'') None ''https://a/x.js'')),
              (20, Cdp (LoadingFinished ''R''))] (initial_detector 0 30000)"
  have a: "''R'' \<notin> inflight ?s"
    unfolding initial_detector_example by (simp add: eval_defs)
  have q: "quietTimer ?s = Some 520"
    unfolding initial_detector_example by (simp add: eval_defs)
  from completion_of_absent_request [OF a, of 30 "''data:,x''"] a q
  show ?thesis by blast
qed

subsection \<open>The stalled-request sweep\<close>

text \<open>What the sweep does: it evicts the requests older than 2000 ms and calls \<^verbatim>\<open>maybeQuiet\<close>.\<close>

lemma sweep_evicts_older:
  assumes "(rid, m) \<in> set (meta s)" "now - start m > 2000"
  shows "rid \<notin> inflight (sweep now s) \<and> (rid, m) \<notin> set (meta (sweep now s))"
proof -
  from assms have "(rid, m) \<in> set (filter (stalled now) (meta s))"
    by (simp add: stalled_def)
  then have "rid \<in> fst ` set (filter (stalled now) (meta s))" by force
  then show ?thesis using assms(2) by (auto simp: sweep_def maybeQuiet_def stalled_def)
qed

lemma sweep_rearms_quiet:
  "inflight (sweep now s) = {} \<Longrightarrow> quietTimer s = None \<Longrightarrow> quietTimer (sweep now s) = Some (now + 500)"
  by (auto simp: sweep_def maybeQuiet_def split: if_splits)

lemma sweep_interval:
  "due now (stalledRequestSweepTimer s) \<Longrightarrow>
   stalledRequestSweepTimer (step now SweepFires s) = Some (now + 500)"
  by (simp add: step_def)

text \<open>
  A document request that never completes: it is sent at time 0 and the sweep runs at
  500, 1000 and 1500 ms.
\<close>

abbreviation stalled_document_trace :: "(nat \<times> occurrence) list" where
  "stalled_document_trace \<equiv>
     [(0, Cdp (RequestWillBeSent ''R'' (Some ''Document'') (Some ''F'') ''https://ads.example/frame'')),
      (500, SweepFires), (1000, SweepFires), (1500, SweepFires)]"

lemma stalled_document_state:
  "run stalled_document_trace (initial_detector 0 30000) =
     \<lparr>inflight = {''R''}, meta = [(''R'', \<lparr>url = ''https://ads.example/frame'', start = 0\<rparr>)],
      docByFrame = [(''F'', ''R'')], quietTimer = None,
      stalledRequestSweepTimer = Some 2000, guard = Some 30000,
      listening = True, resolved = None, logs = []\<rparr>"
  unfolding initial_detector_example by (simp add: eval_defs)

lemma evicted_document_state:
  "run (stalled_document_trace @ [(2000, SweepFires), (2500, SweepFires)]) (initial_detector 0 30000) =
     \<lparr>inflight = {}, meta = [],
      docByFrame = [(''F'', ''R'')], quietTimer = Some 3000,
      stalledRequestSweepTimer = Some 3000, guard = Some 30000,
      listening = True, resolved = None, logs = [StalledLog ''https://ads.example/frame'']\<rparr>"
  unfolding run_append stalled_document_state by (simp add: eval_defs)

lemma stalled_document_schedule:
  "schedule 0 0 (stalled_document_trace @ [(2000, SweepFires), (2500, SweepFires),
     (2600, Cdp (FrameStoppedLoading ''F''))]) (initial_detector 0 30000)"
  unfolding initial_detector_example by (simp add: eval_defs)

text \<open>
  Claim C4. The sweep runs every 500 ms and evicts a request from \<^verbatim>\<open>inflight\<close> and
  \<^verbatim>\<open>meta\<close> when \<^verbatim>\<open>now - m.start > 2_000\<close>. The request of the trace above is 2000 ms old
  when the sweep runs at time 2000, which is "at least 2000 ms" and the "\<ge> 2 s" of the
  function's own comment, and the sweep keeps it in both.
\<close>

theorem sweep_keeps_request_of_age_2000:
  "schedule 0 0 (stalled_document_trace @ [(2000, SweepFires)]) (initial_detector 0 30000)
   \<and> map_of (meta (run stalled_document_trace (initial_detector 0 30000))) ''R''
      = Some \<lparr>url = ''https://ads.example/frame'', start = 0\<rparr>
   \<and> 2000 - start \<lparr>url = ''https://ads.example/frame'', start = 0\<rparr> = 2000
   \<and> ''R'' \<in> inflight (step 2000 SweepFires (run stalled_document_trace (initial_detector 0 30000)))
   \<and> map_of (meta (step 2000 SweepFires (run stalled_document_trace (initial_detector 0 30000)))) ''R''
      = Some \<lparr>url = ''https://ads.example/frame'', start = 0\<rparr>"
proof -
  let ?s = "run stalled_document_trace (initial_detector 0 30000)"
  have sch: "schedule 0 0 (stalled_document_trace @ [(2000, SweepFires)]) (initial_detector 0 30000)"
    unfolding initial_detector_example by (simp add: eval_defs)
  have "map_of (meta ?s) ''R'' = Some \<lparr>url = ''https://ads.example/frame'', start = 0\<rparr>
      \<and> 2000 - start \<lparr>url = ''https://ads.example/frame'', start = 0\<rparr> = 2000
      \<and> ''R'' \<in> inflight (step 2000 SweepFires ?s)
      \<and> map_of (meta (step 2000 SweepFires ?s)) ''R''
          = Some \<lparr>url = ''https://ads.example/frame'', start = 0\<rparr>"
    unfolding stalled_document_state by (simp add: eval_defs)
  with sch show ?thesis by (rule conjI)
qed

subsection \<open>Completion of a request\<close>

text \<open>A request id is forgotten when none of the three collections holds it.\<close>

definition forgotten :: "string \<Rightarrow> detector \<Rightarrow> bool" where
  "forgotten rid s \<longleftrightarrow>
     rid \<notin> inflight s \<and> map_of (meta s) rid = None \<and> rid \<notin> snd ` set (docByFrame s)"

lemma finishReq_forgets: "rid \<in> inflight s \<Longrightarrow> forgotten rid (finishReq now rid s)"
  by (auto simp: forgotten_def finishReq_def maybeQuiet_def clearQuiet_def delete_conv split: option.splits)

lemma filter_drops_entry:
  "distinct (map fst al) \<Longrightarrow> map_of al f = Some v \<Longrightarrow>
   map_of (filter (\<lambda>(k, r). r \<noteq> v) al) f = None"
proof (induction al)
  case Nil
  then show ?case by simp
next
  case (Cons a al)
  obtain k r where a: "a = (k, r)" by (cases a)
  show ?case
  proof (cases "k = f")
    case True
    with Cons.prems a have "r = v" and "f \<notin> fst ` set al" by auto
    then have "map_of (filter (\<lambda>(k, r). r \<noteq> v) al) f = None"
      by (auto simp: map_of_eq_None_iff)
    with a True \<open>r = v\<close> show ?thesis by simp
  next
    case False
    with Cons a show ?thesis by auto
  qed
qed

lemma finishReq_docByFrame:
  "rid \<in> inflight s \<Longrightarrow> docByFrame (finishReq now rid s) = filter (\<lambda>(k, r). r \<noteq> rid) (docByFrame s)"
  by (auto simp: finishReq_def maybeQuiet_def clearQuiet_def split: option.splits)

text \<open>
  Against claim C5 as stated: a frame map entry can outlive its request. The sweep
  evicts a request from \<^verbatim>\<open>inflight\<close> and \<^verbatim>\<open>meta\<close> only, and \<^verbatim>\<open>finishReq\<close> returns at
  once for an id that is not in \<^verbatim>\<open>inflight\<close>. After the document request of the trace above is evicted at
  time 2500, the frame's stopped-loading event and the request's completion both leave
  the entry of frame \<open>F\<close> in place.
\<close>

theorem frame_stopped_after_eviction_keeps_entry:
  "schedule 0 0 (stalled_document_trace @ [(2000, SweepFires), (2500, SweepFires),
     (2600, Cdp (FrameStoppedLoading ''F''))]) (initial_detector 0 30000)
   \<and> listening (run (stalled_document_trace @ [(2000, SweepFires), (2500, SweepFires)]) (initial_detector 0 30000))
   \<and> map_of (docByFrame (run (stalled_document_trace @ [(2000, SweepFires), (2500, SweepFires)])
        (initial_detector 0 30000))) ''F'' = Some ''R''
   \<and> map_of (docByFrame (step 2600 (Cdp (FrameStoppedLoading ''F''))
        (run (stalled_document_trace @ [(2000, SweepFires), (2500, SweepFires)])
          (initial_detector 0 30000)))) ''F'' = Some ''R''
   \<and> map_of (docByFrame (step 2600 (Cdp (LoadingFinished ''R''))
        (run (stalled_document_trace @ [(2000, SweepFires), (2500, SweepFires)])
          (initial_detector 0 30000)))) ''F'' = Some ''R''"
proof -
  let ?s = "run (stalled_document_trace @ [(2000, SweepFires), (2500, SweepFires)]) (initial_detector 0 30000)"
  have "listening ?s \<and> map_of (docByFrame ?s) ''F'' = Some ''R''
      \<and> map_of (docByFrame (step 2600 (Cdp (FrameStoppedLoading ''F'')) ?s)) ''F'' = Some ''R''
      \<and> map_of (docByFrame (step 2600 (Cdp (LoadingFinished ''R'')) ?s)) ''F'' = Some ''R''"
    unfolding evicted_document_state by (simp add: eval_defs)
  with stalled_document_schedule show ?thesis by (rule conjI)
qed

text \<open>
  Claim C5, amended. While the handlers are attached: when \<^verbatim>\<open>Page.frameStoppedLoading\<close>
  arrives for a frame whose entry in the frame map is a non-empty request id that is
  still in \<^verbatim>\<open>inflight\<close>, that id is removed from \<^verbatim>\<open>inflight\<close>, from \<^verbatim>\<open>meta\<close> and from
  every entry of the frame map that holds it, so the frame has no entry left, whether
  or not a \<^verbatim>\<open>Network.loadingFinished\<close> ever arrived; and each completion event for an id
  in \<^verbatim>\<open>inflight\<close> removes the id from the three collections in the same way.
\<close>

theorem frame_stopped_removes_tracked_request:
  assumes "listening s" and "rid \<in> inflight s"
  shows "(map_of (docByFrame s) f = Some rid \<and> rid \<noteq> [] \<longrightarrow>
            forgotten rid (step now (Cdp (FrameStoppedLoading f)) s)
          \<and> (distinct (map fst (docByFrame s)) \<longrightarrow>
               map_of (docByFrame (step now (Cdp (FrameStoppedLoading f)) s)) f = None))
    \<and> forgotten rid (step now (Cdp (LoadingFinished rid)) s)
    \<and> forgotten rid (step now (Cdp (LoadingFailed rid)) s)
    \<and> forgotten rid (step now (Cdp (RequestServedFromCache rid)) s)
    \<and> forgotten rid (step now (Cdp (ResponseReceived rid (''data:'' @ u))) s)"
proof -
  have fin: "forgotten rid (finishReq now rid s)" using assms(2) by (rule finishReq_forgets)
  have stop: "step now (Cdp (FrameStoppedLoading f)) s = finishReq now rid s"
    if "map_of (docByFrame s) f = Some rid" "rid \<noteq> []"
    using that assms(1) by (simp add: step_def dispatch_def onFrameStop_def)
  have gone: "map_of (docByFrame (finishReq now rid s)) f = None"
    if "map_of (docByFrame s) f = Some rid" "distinct (map fst (docByFrame s))"
    using that assms(2) by (simp add: finishReq_docByFrame filter_drops_entry)
  have others: "step now (Cdp (LoadingFinished rid)) s = finishReq now rid s"
    "step now (Cdp (LoadingFailed rid)) s = finishReq now rid s"
    "step now (Cdp (RequestServedFromCache rid)) s = finishReq now rid s"
    "step now (Cdp (ResponseReceived rid (''data:'' @ u))) s = finishReq now rid s"
    using assms(1) by (simp_all add: step_def dispatch_def onDataUrl_def)
  from fin stop gone others show ?thesis by (simp del: map_of_eq_Some_iff)
qed

theorem frame_stopped_removes_tracked_request_witness:
  "listening (run [(0, Cdp (RequestWillBeSent ''R'' (Some ''Document'') (Some ''F'') ''https://a/''))]
      (initial_detector 0 30000))
   \<and> ''R'' \<in> inflight (run [(0, Cdp (RequestWillBeSent ''R'' (Some ''Document'') (Some ''F'') ''https://a/''))]
      (initial_detector 0 30000))
   \<and> map_of (docByFrame (run [(0, Cdp (RequestWillBeSent ''R'' (Some ''Document'') (Some ''F'') ''https://a/''))]
      (initial_detector 0 30000))) ''F'' = Some ''R''
   \<and> forgotten ''R'' (step 100 (Cdp (FrameStoppedLoading ''F''))
        (run [(0, Cdp (RequestWillBeSent ''R'' (Some ''Document'') (Some ''F'') ''https://a/''))]
          (initial_detector 0 30000)))
   \<and> map_of (docByFrame (step 100 (Cdp (FrameStoppedLoading ''F''))
        (run [(0, Cdp (RequestWillBeSent ''R'' (Some ''Document'') (Some ''F'') ''https://a/''))]
          (initial_detector 0 30000)))) ''F'' = None
   \<and> forgotten ''R'' (step 100 (Cdp (LoadingFinished ''R''))
        (run [(0, Cdp (RequestWillBeSent ''R'' (Some ''Document'') (Some ''F'') ''https://a/''))]
          (initial_detector 0 30000)))"
proof -
  let ?s = "run [(0, Cdp (RequestWillBeSent ''R'' (Some ''Document'') (Some ''F'') ''https://a/''))]
      (initial_detector 0 30000)"
  have s: "?s = \<lparr>inflight = {''R''}, meta = [(''R'', \<lparr>url = ''https://a/'', start = 0\<rparr>)],
      docByFrame = [(''F'', ''R'')], quietTimer = None,
      stalledRequestSweepTimer = Some 500, guard = Some 30000,
      listening = True, resolved = None, logs = []\<rparr>"
    unfolding initial_detector_example by (simp add: eval_defs)
  have a: "listening ?s" and b: "''R'' \<in> inflight ?s"
    and c: "map_of (docByFrame ?s) ''F'' = Some ''R''" and d: "distinct (map fst (docByFrame ?s))"
    unfolding s by simp_all
  from frame_stopped_removes_tracked_request [OF a b, of "''F''" 100 "''x''"] a b c d
  show ?thesis by simp
qed


subsection \<open>The guard\<close>

text \<open>
  A wait is either pending, with the guard armed for the time \<open>g\<close>, or done: resolved no
  later than \<open>g + tick\<close>, with every timer cleared and the handlers detached.
\<close>

definition pending_or_done :: "nat \<Rightarrow> nat \<Rightarrow> detector \<Rightarrow> bool" where
  "pending_or_done tick g s =
     (case resolved s of
        None \<Rightarrow> guard s = Some g
      | Some t \<Rightarrow> t \<le> g + tick \<and> quietTimer s = None \<and> stalledRequestSweepTimer s = None
          \<and> guard s = None \<and> \<not> listening s)"

lemma finishReq_keeps: "guard (finishReq now rid s) = guard s \<and> resolved (finishReq now rid s) = resolved s"
  by (simp add: finishReq_def maybeQuiet_def clearQuiet_def split: option.splits)

lemma dispatch_keeps: "guard (dispatch now ev s) = guard s \<and> resolved (dispatch now ev s) = resolved s"
  by (cases ev)
     (simp_all add: dispatch_def onRequest_def onDataUrl_def onFrameStop_def finishReq_keeps
        clearQuiet_def split: option.splits)

lemma sweep_keeps: "guard (sweep now s) = guard s \<and> resolved (sweep now s) = resolved s"
  by (simp add: sweep_def maybeQuiet_def)

lemma step_done:
  "pending_or_done tick g s \<Longrightarrow> resolved s = Some t \<Longrightarrow> step now occ s = s"
  by (cases occ) (simp_all add: pending_or_done_def step_def dispatch_def due_def)

lemma run_done:
  "pending_or_done tick g s \<Longrightarrow> resolved s = Some t \<Longrightarrow> run tr s = s"
  by (induction tr) (auto simp: step_done)

lemma guard_forces:
  "due now (guard s) \<Longrightarrow> resolved s = None \<Longrightarrow> resolved (step now GuardFires s) = Some now"
  by (simp add: step_def guardFired_def resolveDone_def)

lemma step_pending_or_done:
  assumes inv: "pending_or_done tick g s" and ot: "on_time tick now s"
  shows "pending_or_done tick g (step now occ s)"
proof (cases "resolved s")
  case (Some t)
  with inv show ?thesis by (simp add: step_done)
next
  case None
  with inv have g: "guard s = Some g" by (simp add: pending_or_done_def)
  with ot have le: "now \<le> g + tick" by (simp add: on_time_def not_overdue_def)
  show ?thesis
  proof (cases occ)
    case (Cdp ev)
    with None g show ?thesis by (simp add: step_def pending_or_done_def dispatch_keeps)
  next
    case QuietFires
    with None g le show ?thesis by (simp add: step_def pending_or_done_def resolveDone_def)
  next
    case SweepFires
    with None g show ?thesis by (simp add: step_def pending_or_done_def sweep_keeps)
  next
    case GuardFires
    with None g le show ?thesis
      by (simp add: step_def pending_or_done_def guardFired_def resolveDone_def)
  qed
qed

lemma run_pending_or_done:
  "pending_or_done tick g s \<Longrightarrow> schedule tick t tr s \<Longrightarrow> pending_or_done tick g (run tr s)"
  by (induction tr arbitrary: s t) (auto simp: step_pending_or_done)

lemma initial_pending: "pending_or_done tick (now + timeout) (initial_detector now timeout)"
  by (simp add: pending_or_done_def initial_detector_def maybeQuiet_def)

lemma schedule_last:
  "schedule tick t (tr @ [(now, occ)]) s \<Longrightarrow> on_time tick now (run tr s)"
  by (induction tr arbitrary: s t) auto

lemma waitForSettledDom_detector:
  "waitForSettledDom new env timeoutMs reg = Some (Inr d) \<Longrightarrow>
   d = initial_detector (clock env) (case timeoutMs of Some t \<Rightarrow> t | None \<Rightarrow> domSettleTimeoutMs env)"
  by (auto simp: waitForSettledDom_def Let_def split: option.splits prod.splits sum.splits if_splits)

text \<open>
  Against claim C1 as stated: the promise of \<^verbatim>\<open>_waitForSettledDom\<close> can reject.
  Nothing catches a failure of the set-up. Here the engine fails to create the page's session, \<^verbatim>\<open>getCDPClient\<close> throws
  that error and the wait rejects with it before any timer exists.
\<close>

theorem wait_rejects_when_session_fails:
  "waitForSettledDom example_engine example_env (Some 1000)
     \<lparr>cdpClients = Map.empty, page = 2, engine = 0\<rparr>
   = Some (Inl (JsError (Some ''Target closed'')))"
proof -
  have "\<not> no_separate_session (JsError (Some ''Target closed''))"
    by (simp add: no_separate_session_def)
  then have "getCDPClient example_engine 2 \<lparr>cdpClients = Map.empty, page = 2, engine = 0\<rparr>
      = Some (Inl (JsError (Some ''Target closed'')), \<lparr>cdpClients = Map.empty, page = 2, engine = 1\<rparr>)"
    by (subst getCDPClient.simps) simp
  then show ?thesis by (simp add: waitForSettledDom_def)
qed

text \<open>
  Claim C1, amended. When the set-up succeeds, so that the promise body runs (at time
  \<^verbatim>\<open>clock\<close>, arming the guard for \<open>g\<close>, that time plus the timeout), then for every
  schedule of events and timer callbacks, timers being at most \<open>tick\<close> late: a
  resolution happens no later than \<open>g + tick\<close>; while the wait is pending the guard is
  still armed for \<open>g\<close> and its callback resolves the promise whatever \<^verbatim>\<open>inflight\<close> holds;
  after the resolution nothing changes the state any more (no handler and no timer is
  left, and there is no path that rejects); and once anything runs later than
  \<open>g + tick\<close>, the wait is resolved.
\<close>

theorem guard_bounds_wait:
  assumes start: "waitForSettledDom new env timeoutMs reg = Some (Inr d)"
    and sched: "schedule tick (clock env) tr d"
    and g: "g = clock env + (case timeoutMs of Some t \<Rightarrow> t | None \<Rightarrow> domSettleTimeoutMs env)"
  shows "(\<forall>t. resolved (run tr d) = Some t \<longrightarrow> t \<le> g + tick)
    \<and> (resolved (run tr d) = None \<longrightarrow>
          guard (run tr d) = Some g
          \<and> (\<forall>now. g \<le> now \<longrightarrow> resolved (step now GuardFires (run tr d)) = Some now))
    \<and> (\<forall>t. resolved (run tr d) = Some t \<longrightarrow> (\<forall>tr'. run tr' (run tr d) = run tr d))
    \<and> (tr \<noteq> [] \<and> g + tick < fst (last tr) \<longrightarrow> resolved (run tr d) \<noteq> None)"
proof -
  from start g have d: "d = initial_detector (clock env) (g - clock env)"
    by (auto dest: waitForSettledDom_detector)
  have g': "clock env + (g - clock env) = g" using g by simp
  have "pending_or_done tick (clock env + (g - clock env)) d" unfolding d by (rule initial_pending)
  then have inv0: "pending_or_done tick g d" by (simp only: g')
  then have inv: "pending_or_done tick g (run tr d)" using sched by (rule run_pending_or_done)
  have p1: "t \<le> g + tick" if "resolved (run tr d) = Some t" for t
    using inv that by (simp add: pending_or_done_def)
  have p2: "guard (run tr d) = Some g" if "resolved (run tr d) = None"
    using inv that by (simp add: pending_or_done_def)
  have p3: "resolved (step now GuardFires (run tr d)) = Some now"
    if "resolved (run tr d) = None" "g \<le> now" for now
    using that p2 by (simp add: guard_forces due_def)
  have p4: "run tr' (run tr d) = run tr d" if "resolved (run tr d) = Some t" for t tr'
    using inv that by (rule run_done)
  have p5: "resolved (run tr d) \<noteq> None" if ne: "tr \<noteq> []" and late: "g + tick < fst (last tr)"
  proof
    assume pend: "resolved (run tr d) = None"
    from ne obtain tr0 now occ where tr: "tr = tr0 @ [(now, occ)]"
      by (cases tr rule: rev_cases) auto
    with late have now: "g + tick < now" by simp
    from sched tr have ot: "on_time tick now (run tr0 d)" by (auto dest: schedule_last)
    from sched tr have "schedule tick (clock env) tr0 d" by (auto dest: schedule_append)
    with inv0 have inv1: "pending_or_done tick g (run tr0 d)" by (rule run_pending_or_done)
    show False
    proof (cases "resolved (run tr0 d)")
      case None
      with inv1 have "guard (run tr0 d) = Some g" by (simp add: pending_or_done_def)
      with ot now show False by (simp add: on_time_def not_overdue_def)
    next
      case (Some t)
      with inv1 have "run [(now, occ)] (run tr0 d) = run tr0 d" by (rule run_done)
      with tr Some pend show False by (simp add: run_append)
    qed
  qed
  from p1 p2 p3 p4 p5 show ?thesis by blast
qed


abbreviation busy_trace :: "(nat \<times> occurrence) list" where
  "busy_trace \<equiv>
     [(0, Cdp (RequestWillBeSent ''R1'' (Some ''Script'') None ''https://a/1.js'')),
      (100, Cdp (RequestWillBeSent ''R2'' (Some ''XHR'') None ''https://a/poll'')),
      (500, SweepFires), (1000, SweepFires), (1000, GuardFires)]"

lemma example_wait_starts:
  "waitForSettledDom example_engine example_env (Some 1000)
     \<lparr>cdpClients = Map.empty, page = 0, engine = 0\<rparr>
   = Some (Inr (initial_detector 0 1000))"
proof -
  have "getCDPClient example_engine 0 \<lparr>cdpClients = Map.empty, page = 0, engine = 0\<rparr>
      = Some (Inr 100, \<lparr>cdpClients = [0 \<mapsto> 100], page = 0, engine = 1\<rparr>)"
    by (subst getCDPClient.simps) simp
  then show ?thesis by (simp add: waitForSettledDom_def)
qed

lemma initial_detector_1000:
  "initial_detector 0 1000 =
     \<lparr>inflight = {}, meta = [], docByFrame = [], quietTimer = Some 500,
      stalledRequestSweepTimer = Some 500, guard = Some 1000,
      listening = True, resolved = None, logs = []\<rparr>"
  by (simp add: initial_detector_def maybeQuiet_def)

theorem guard_bounds_wait_witness:
  "waitForSettledDom example_engine example_env (Some 1000)
     \<lparr>cdpClients = Map.empty, page = 0, engine = 0\<rparr> = Some (Inr (initial_detector 0 1000))
   \<and> schedule 0 0 busy_trace (initial_detector 0 1000)
   \<and> resolved (run busy_trace (initial_detector 0 1000)) = Some 1000
   \<and> inflight (run busy_trace (initial_detector 0 1000)) = {''R1'', ''R2''}
   \<and> run [(1100, Cdp (LoadingFinished ''R1'')), (1500, SweepFires)] (run busy_trace (initial_detector 0 1000))
      = run busy_trace (initial_detector 0 1000)
   \<and> resolved (run (take 2 busy_trace) (initial_detector 0 1000)) = None
   \<and> guard (run (take 2 busy_trace) (initial_detector 0 1000)) = Some 1000
   \<and> resolved (step 1000 GuardFires (run (take 2 busy_trace) (initial_detector 0 1000))) = Some 1000"
proof -
  let ?reg = "\<lparr>cdpClients = Map.empty, page = 0, engine = 0::nat\<rparr>"
  let ?d = "initial_detector 0 1000"
  note start = example_wait_starts
  have g: "(1000::nat) = clock example_env + (case Some 1000 of Some t \<Rightarrow> t | None \<Rightarrow> domSettleTimeoutMs example_env)"
    by simp
  have sch: "schedule 0 (clock example_env) busy_trace ?d"
    unfolding initial_detector_1000 by (simp add: eval_defs)
  have sch2: "schedule 0 (clock example_env) (take 2 busy_trace) ?d"
    unfolding initial_detector_1000 by (simp add: eval_defs)
  have r: "resolved (run busy_trace ?d) = Some 1000"
    unfolding initial_detector_1000 by (simp add: eval_defs)
  have i: "inflight (run busy_trace ?d) = {''R1'', ''R2''}"
    unfolding initial_detector_1000 by (auto simp add: eval_defs)
  have p: "resolved (run (take 2 busy_trace) ?d) = None"
    unfolding initial_detector_1000 by (simp add: eval_defs)
  from guard_bounds_wait [OF start sch g] r
  have a: "run [(1100, Cdp (LoadingFinished ''R1'')), (1500, SweepFires)] (run busy_trace ?d) = run busy_trace ?d"
    by blast
  from guard_bounds_wait [OF start sch2 g] p
  have b: "guard (run (take 2 busy_trace) ?d) = Some 1000"
    and c: "resolved (step 1000 GuardFires (run (take 2 busy_trace) ?d)) = Some 1000"
    by blast+
  from start sch r i a p b c show ?thesis by simp
qed


section \<open>Shadow-Piercing Query Engine\<close>

subsection \<open>The DOM and the traversal\<close>

text \<open>
  A JavaScript string is a sequence of UTF-16 code units: a list of numbers. \<open>ascii\<close>
  gives the code units of a string of ASCII characters.
\<close>

type_synonym js_string = "nat list"


text \<open>
  A node is a document (with its \<^verbatim>\<open>documentElement\<close>, if any), a document fragment or
  shadow root (with its \<^verbatim>\<open>childNodes\<close>), an element, or a node of any other type (text,
  comment). An element has a flag (it is an HTML element of an HTML document), its
  attributes (qualified name and value, in the order of the attribute list), its
  \<^verbatim>\<open>childNodes\<close>, its \<^verbatim>\<open>shadowRoot\<close> (the open shadow root, \<open>None\<close> for \<^verbatim>\<open>null\<close>) and what
  the host's backdoor \<^verbatim>\<open>getClosedRoot\<close> resolves for it (\<open>None\<close> when there is no
  backdoor or no closed root). \<^verbatim>\<open>children\<close> is the DOM's view of \<^verbatim>\<open>childNodes\<close>: the
  elements among them. The fields are what the property reads of the code return, as
  the DOM interfaces define them; a form whose controls are named like these properties
  and so shadow them is not such a tree. The stack is a list whose head is the top:
  \<^verbatim>\<open>push\<close> conses and \<^verbatim>\<open>pop\<close> takes the head.
\<close>

datatype node =
    Document "node option"
  | Fragment "node list"
  | Element bool "(js_string \<times> js_string) list" "node list" "node option" "node option"
  | Other

fun is_element :: "node \<Rightarrow> bool" where
  "is_element (Element html attrs cn opn cls) = True"
| "is_element n = False"
















subsection \<open>Selectors and queries\<close>














subsection \<open>Every element, once\<close>

text \<open>
  The elements of a tree, each where it stands: an element, then those below its
  children, then those of its closed and of its open shadow tree. In a well-formed tree
  the children of an element or fragment are elements or nodes of the other types.
\<close>

fun all_elements :: "node \<Rightarrow> node list" where
  "all_elements (Document de) = (case de of Some d \<Rightarrow> all_elements d | None \<Rightarrow> [])"
| "all_elements (Fragment cn) = concat (map all_elements cn)"
| "all_elements (Element html attrs cn opn cls) =
     Element html attrs cn opn cls # concat (map all_elements cn)
       @ (case cls of Some r \<Rightarrow> all_elements r | None \<Rightarrow> [])
       @ (case opn of Some r \<Rightarrow> all_elements r | None \<Rightarrow> [])"
| "all_elements Other = []"




lemma no_element_children:
  "filter is_element cn = [] \<Longrightarrow> \<forall>c \<in> set cn. is_element c \<or> c = Other \<Longrightarrow>
   concat (map all_elements cn) = []"
  by (induction cn) (auto split: if_splits)





subsection \<open>What a selector names\<close>




















end
